theory Spec2Isabelle
  imports Main "HOL-Library.Log_Nat"
begin

section \<open>The C++ type \<open>double\<close>: IEEE 754 binary64, round to nearest even\<close>

text \<open>
  \<open>timer.h\<close> keeps the elapsed time in a \<open>double\<close> and computes with \<open>+\<close>, \<open>/\<close>,
  \<open>fabs\<close> and the conversion of an integer to \<open>double\<close>. A finite binary64 value is
  modelled by the rational number it denotes; the negative zero, the two infinities and
  NaN are constructors of their own. \<open>Finite 0\<close> is the positive zero. Every operation
  computes the exact rational result and rounds it to the nearest binary64 value, ties
  to the even significand (the default rounding mode), with no excess precision in
  between; the conversion of an integer rounds the same way.
\<close>

datatype double = Finite rat | NegZero | PosInf | NegInf | NaN

definition pow2 :: "int \<Rightarrow> rat" where
  "pow2 e = 2 powi e"

text \<open>The binary exponent of a positive rational: \<open>pow2 (ilog2 q) \<le> q < pow2 (ilog2 q + 1)\<close>.\<close>

definition ilog2 :: "rat \<Rightarrow> int" where
  "ilog2 q = (let (a, b) = quotient_of q; d = bitlen a - bitlen b
              in if pow2 d \<le> q then d else d - 1)"

definition round_half_even :: "rat \<Rightarrow> int" where
  "round_half_even x =
     (let f = \<lfloor>x\<rfloor>; d = x - of_int f
      in if d < 1 / 2 then f
         else if 1 / 2 < d then f + 1
         else if even f then f else f + 1)"

text \<open>
  Rounding a positive rational: 53 significant bits for a normal number (exponent at
  least \<open>-1022\<close>), the fixed quantum \<open>pow2 (-1074)\<close> for a subnormal one, infinity from
  \<open>pow2 1024\<close> on.
\<close>

definition round_pos :: "rat \<Rightarrow> double" where
  "round_pos q =
     (let e = max (ilog2 q) (- 1022);
          u = pow2 (e - 52);
          r = of_int (round_half_even (q / u)) * u
      in if pow2 1024 \<le> r then PosInf else Finite r)"

fun dneg :: "double \<Rightarrow> double" where
  "dneg (Finite q) = (if q = 0 then NegZero else Finite (- q))"
| "dneg NegZero = Finite 0"
| "dneg PosInf = NegInf"
| "dneg NegInf = PosInf"
| "dneg NaN = NaN"

definition round_double :: "rat \<Rightarrow> double" where
  "round_double q =
     (if q = 0 then Finite 0
      else if 0 < q then round_pos q
      else dneg (round_pos (- q)))"

fun valof :: "double \<Rightarrow> rat" where
  "valof (Finite q) = q"
| "valof _ = 0"

fun is_nan :: "double \<Rightarrow> bool" where
  "is_nan NaN = True"
| "is_nan _ = False"

fun is_inf :: "double \<Rightarrow> bool" where
  "is_inf PosInf = True"
| "is_inf NegInf = True"
| "is_inf _ = False"

fun is_zero :: "double \<Rightarrow> bool" where
  "is_zero (Finite q) = (q = 0)"
| "is_zero NegZero = True"
| "is_zero _ = False"

text \<open>The sign bit (of a value that is not NaN).\<close>

fun signbit :: "double \<Rightarrow> bool" where
  "signbit (Finite q) = (q < 0)"
| "signbit NegZero = True"
| "signbit NegInf = True"
| "signbit _ = False"

definition signed_inf :: "bool \<Rightarrow> double" where
  "signed_inf s = (if s then NegInf else PosInf)"

definition signed_zero :: "bool \<Rightarrow> double" where
  "signed_zero s = (if s then NegZero else Finite 0)"

text \<open>\<open>x + y\<close> on doubles. An exact sum of zero is \<open>+0\<close>, except \<open>-0 + -0 = -0\<close>.\<close>

definition dadd :: "double \<Rightarrow> double \<Rightarrow> double" where
  "dadd x y =
     (if is_nan x \<or> is_nan y then NaN
      else if is_inf x then (if is_inf y \<and> x \<noteq> y then NaN else x)
      else if is_inf y then y
      else if x = NegZero \<and> y = NegZero then NegZero
      else round_double (valof x + valof y))"

text \<open>\<open>x / y\<close> on doubles.\<close>

definition ddiv :: "double \<Rightarrow> double \<Rightarrow> double" where
  "ddiv x y =
     (if is_nan x \<or> is_nan y then NaN
      else if is_inf x then (if is_inf y then NaN else signed_inf (signbit x \<noteq> signbit y))
      else if is_inf y then signed_zero (signbit x \<noteq> signbit y)
      else if is_zero y then (if is_zero x then NaN else signed_inf (signbit x \<noteq> signbit y))
      else if is_zero x then signed_zero (signbit x \<noteq> signbit y)
      else round_double (valof x / valof y))"

text \<open>\<open>fabs\<close> clears the sign bit.\<close>

fun fabs :: "double \<Rightarrow> double" where
  "fabs (Finite q) = Finite \<bar>q\<bar>"
| "fabs NegZero = Finite 0"
| "fabs PosInf = PosInf"
| "fabs NegInf = PosInf"
| "fabs NaN = NaN"

text \<open>The conversion \<open>(double) k\<close> of an integer.\<close>

definition double_of_int :: "int \<Rightarrow> double" where
  "double_of_int k = round_double (of_int k)"

text \<open>
  A value of the format: a finite one is a fixed point of the rounding. Every value the
  operations above return is one; the predicate excludes the other rationals under
  \<open>Finite\<close>.
\<close>

fun is_double :: "double \<Rightarrow> bool" where
  "is_double (Finite q) = (round_double q = Finite q)"
| "is_double _ = True"

text \<open>A value that is not NaN and has a clear sign bit: \<open>+0\<close>, positive or \<open>+\<infinity>\<close>.\<close>

fun nonneg :: "double \<Rightarrow> bool" where
  "nonneg (Finite q) = (0 \<le> q)"
| "nonneg PosInf = True"
| "nonneg _ = False"

section \<open>The platform clock: \<open>value_t\<close>, \<open>now\<close> and \<open>diff\<close>\<close>

text \<open>
  \<open>value_t\<close> is \<open>struct timeval\<close>, or \<open>LARGE_INTEGER\<close> under \<open>_WIN32\<close>. Their fields
  are signed integers of the platform (\<open>time_t\<close>, \<open>suseconds_t\<close>, \<open>LONGLONG\<close>),
  modelled as \<open>int\<close>: the subtractions in \<open>diff\<close> are the exact ones whenever they do
  not overflow, and a signed overflow is undefined in C++.
\<close>

record timeval =
  tv_sec :: int
  tv_usec :: int

record LARGE_INTEGER =
  QuadPart :: int

text \<open>
  \<open>Timer::diff\<close>, the \<open>#else\<close> branch:
  \<open>fabs ((now.tv_sec - then.tv_sec) + (now.tv_usec - then.tv_usec) / 1e6)\<close>. The two
  differences are integer subtractions; the second is converted for the division by the
  \<open>double\<close> constant, the first for the addition.
\<close>

definition diff_POSIX :: "timeval \<Rightarrow> timeval \<Rightarrow> double" where
  "diff_POSIX then' now' =
     fabs (dadd (double_of_int (tv_sec now' - tv_sec then'))
                (ddiv (double_of_int (tv_usec now' - tv_usec then')) (Finite 1000000)))"

text \<open>
  \<open>Timer::diff\<close>, the \<open>_WIN32\<close> branch:
  \<open>(double)(now.QuadPart - then.QuadPart) / (double)freq.QuadPart\<close>, where \<open>freq\<close> is
  what \<open>QueryPerformanceFrequency\<close> stores, a parameter here.
\<close>

definition diff_WIN32 :: "LARGE_INTEGER \<Rightarrow> LARGE_INTEGER \<Rightarrow> LARGE_INTEGER \<Rightarrow> double" where
  "diff_WIN32 freq then' now' =
     ddiv (double_of_int (QuadPart now' - QuadPart then')) (double_of_int (QuadPart freq))"

section \<open>\<open>class Timer\<close>\<close>

text \<open>
  The three data members. The member functions are state transformers on this record.
  Each of them calls \<open>now()\<close> at most once; the reading that call delivers
  (\<open>gettimeofday\<close>, \<open>QueryPerformanceCounter\<close>) is the argument \<open>clk\<close>, and the build's
  \<open>diff\<close> is the argument \<open>dif\<close>. A \<open>const\<close> member function returns its result
  together with the object it was called on.
\<close>

record 'v Timer =
  m_ticking :: bool
  m_starttime :: 'v
  m_elapsed :: double

definition start :: "'v \<Rightarrow> 'v Timer \<Rightarrow> 'v Timer" where
  "start clk t =
     (if \<not> m_ticking t then t\<lparr>m_starttime := clk, m_ticking := True\<rparr> else t)"

definition stop :: "('v \<Rightarrow> 'v \<Rightarrow> double) \<Rightarrow> 'v \<Rightarrow> 'v Timer \<Rightarrow> 'v Timer" where
  "stop dif clk t =
     (if m_ticking t
      then (let n = clk
            in t\<lparr>m_elapsed := dadd (m_elapsed t) (dif n (m_starttime t)), m_ticking := False\<rparr>)
      else t)"

definition reset :: "'v Timer \<Rightarrow> 'v Timer" where
  "reset t = t\<lparr>m_elapsed := Finite 0, m_ticking := False\<rparr>"

definition time_since_start ::
  "('v \<Rightarrow> 'v \<Rightarrow> double) \<Rightarrow> 'v \<Rightarrow> 'v Timer \<Rightarrow> double \<times> 'v Timer" where
  "time_since_start dif clk t =
     (if m_ticking t
      then (let n = clk in (dif (m_starttime t) n, t))
      else (Finite 0, t))"

text \<open>\<open>operator()\<close>: \<open>m_elapsed + time_since_start()\<close>.\<close>

definition operator_call ::
  "('v \<Rightarrow> 'v \<Rightarrow> double) \<Rightarrow> 'v \<Rightarrow> 'v Timer \<Rightarrow> double \<times> 'v Timer" where
  "operator_call dif clk t =
     (let (d, t') = time_since_start dif clk t in (dadd (m_elapsed t') d, t'))"

text \<open>
  The constructor initialises \<open>m_ticking\<close> and \<open>m_elapsed\<close> only; \<open>m_starttime\<close> keeps
  whatever the storage held, the argument \<open>u\<close>.
\<close>

definition Timer_ctor :: "bool \<Rightarrow> 'v \<Rightarrow> 'v \<Rightarrow> 'v Timer" where
  "Timer_ctor startnow clk u =
     (let t = \<lparr>m_ticking = False, m_starttime = u, m_elapsed = Finite 0\<rparr>
      in if startnow then start clk t else t)"

section \<open>\<open>class ScopedTimer\<close>\<close>

text \<open>
  The guard holds a reference \<open>TIMER &m_timer\<close>. The timers live in a store indexed by
  address, the reference is an address, and the guard's member functions transform the
  store. \<open>TIMER\<close> is the default template argument, \<open>Timer\<close>.
\<close>

type_synonym 'v store = "nat \<Rightarrow> 'v Timer"

record ScopedTimer =
  m_timer :: nat

definition ScopedTimer_start :: "'v \<Rightarrow> ScopedTimer \<Rightarrow> 'v store \<Rightarrow> 'v store" where
  "ScopedTimer_start clk g s = s(m_timer g := start clk (s (m_timer g)))"

definition ScopedTimer_stop ::
  "('v \<Rightarrow> 'v \<Rightarrow> double) \<Rightarrow> 'v \<Rightarrow> ScopedTimer \<Rightarrow> 'v store \<Rightarrow> 'v store" where
  "ScopedTimer_stop dif clk g s = s(m_timer g := stop dif clk (s (m_timer g)))"

definition ScopedTimer_reset :: "ScopedTimer \<Rightarrow> 'v store \<Rightarrow> 'v store" where
  "ScopedTimer_reset g s = s(m_timer g := reset (s (m_timer g)))"

definition ScopedTimer_ctor :: "'v \<Rightarrow> nat \<Rightarrow> 'v store \<Rightarrow> ScopedTimer \<times> 'v store" where
  "ScopedTimer_ctor clk a s = (let g = \<lparr>m_timer = a\<rparr> in (g, ScopedTimer_start clk g s))"

definition ScopedTimer_dtor ::
  "('v \<Rightarrow> 'v \<Rightarrow> double) \<Rightarrow> 'v \<Rightarrow> ScopedTimer \<Rightarrow> 'v store \<Rightarrow> 'v store" where
  "ScopedTimer_dtor dif clk g s = ScopedTimer_stop dif clk g s"

section \<open>Call sequences\<close>

text \<open>
  A sequence of \<open>start()\<close>/\<open>stop()\<close> calls, each with the clock reading at the moment of
  the call, and the timer it leaves.
\<close>

datatype call = Start | Stop

fun do_call :: "('v \<Rightarrow> 'v \<Rightarrow> double) \<Rightarrow> 'v Timer \<Rightarrow> call \<times> 'v \<Rightarrow> 'v Timer" where
  "do_call dif t (Start, clk) = start clk t"
| "do_call dif t (Stop, clk) = stop dif clk t"

definition run :: "('v \<Rightarrow> 'v \<Rightarrow> double) \<Rightarrow> 'v Timer \<Rightarrow> (call \<times> 'v) list \<Rightarrow> 'v Timer" where
  "run dif t cs = foldl (do_call dif) t cs"

text \<open>
  The segments of a call sequence, read off the sequence alone: a \<open>start()\<close> opens a
  segment at its reading, the next \<open>stop()\<close> closes it at its own. The first argument
  is the reading of the open segment, if there is one. The result is \<open>None\<close> for a
  \<open>start()\<close> inside an open segment and for a sequence that ends inside one; a \<open>stop()\<close>
  outside a segment belongs to none.
\<close>

fun segments :: "'v option \<Rightarrow> (call \<times> 'v) list \<Rightarrow> ('v \<times> 'v) list option" where
  "segments None [] = Some []"
| "segments (Some s) [] = None"
| "segments None ((Start, c) # cs) = segments (Some c) cs"
| "segments (Some s) ((Start, c) # cs) = None"
| "segments None ((Stop, c) # cs) = segments None cs"
| "segments (Some s) ((Stop, c) # cs) = map_option ((#) (s, c)) (segments None cs)"

text \<open>The sum of a list of doubles, added up from \<open>0\<close> in the order of the list.\<close>

definition dsum :: "double list \<Rightarrow> double" where
  "dsum ds = foldl dadd (Finite 0) ds"

text \<open>The states a \<open>Timer\<close> can be in: constructed, then any member functions called.\<close>

inductive reachable :: "('v \<Rightarrow> 'v \<Rightarrow> double) \<Rightarrow> 'v Timer \<Rightarrow> bool"
  for dif :: "'v \<Rightarrow> 'v \<Rightarrow> double" where
  r_ctor: "reachable dif (Timer_ctor startnow clk u)"
| r_start: "reachable dif t \<Longrightarrow> reachable dif (start clk t)"
| r_stop: "reachable dif t \<Longrightarrow> reachable dif (stop dif clk t)"
| r_reset: "reachable dif t \<Longrightarrow> reachable dif (reset t)"

code_pred reachable .

text \<open>A \<open>diff\<close> that returns values of the format.\<close>

definition double_valued :: "('v \<Rightarrow> 'v \<Rightarrow> double) \<Rightarrow> bool" where
  "double_valued dif = (\<forall>a b. is_double (dif a b))"

section \<open>Facts about the rounding\<close>

subsection \<open>Powers of two and the binary exponent\<close>

lemma pow2_pos: "0 < pow2 e"
  by (simp add: pow2_def)

lemma pow2_add: "pow2 (a + b) = pow2 a * pow2 b"
  by (simp add: pow2_def power_int_add)

lemma pow2_nat: "pow2 (int n) = 2 ^ n"
  by (simp add: pow2_def)

lemma pow2_shift: "a = b + int k \<Longrightarrow> pow2 a = 2 ^ k * pow2 b"
  using pow2_add [of "int k" b] by (simp add: pow2_nat add.commute)

lemma pow2_mono: "a \<le> b \<Longrightarrow> pow2 a \<le> pow2 b"
  by (simp add: pow2_def power_int_increasing)

lemma pow2_strict_mono: "a < b \<Longrightarrow> pow2 a < pow2 b"
  by (simp add: pow2_def power_int_strict_increasing)

lemma pow2_less_iff: "pow2 a < pow2 b \<longleftrightarrow> a < b"
proof
  assume "pow2 a < pow2 b"
  then show "a < b" using pow2_mono [of b a] by (cases "a < b") auto
qed (rule pow2_strict_mono)

text \<open>Evaluating \<open>pow2\<close> by repeated squaring.\<close>

lemma pow2_code [code]:
  "pow2 e = (if e = 0 then 1 else if e < 0 then 1 / pow2 (- e)
             else if even e then (let h = pow2 (e div 2) in h * h) else 2 * pow2 (e - 1))"
proof -
  have a: "pow2 e = 1 / pow2 (- e)"
    using pow2_add [of e "- e"] pow2_pos [of "- e"] by (simp add: pow2_def field_simps)
  have b: "pow2 e = pow2 (e div 2) * pow2 (e div 2)" if "even e"
  proof -
    from that have "e = e div 2 + e div 2" by presburger
    then show ?thesis using pow2_add [of "e div 2" "e div 2"] by simp
  qed
  have c: "pow2 e = 2 * pow2 (e - 1)"
    using pow2_add [of 1 "e - 1"] by (simp add: pow2_def)
  show ?thesis
  proof (cases "e = 0")
    case True
    then show ?thesis by (simp add: pow2_def)
  next
    case nz: False
    show ?thesis
    proof (cases "e < 0")
      case True
      with nz show ?thesis using a by simp
    next
      case pos: False
      show ?thesis
      proof (cases "even e")
        case True
        with nz pos show ?thesis using b by (simp add: Let_def)
      next
        case False
        with nz pos show ?thesis using c by simp
      qed
    qed
  qed
qed

lemma ilog2_bounds:
  assumes "0 < q"
  shows "pow2 (ilog2 q) \<le> q \<and> q < pow2 (ilog2 q + 1)"
proof -
  obtain a b where ab: "quotient_of q = (a, b)" by (cases "quotient_of q")
  then have b: "0 < b" and q: "q = of_int a / of_int b"
    using quotient_of_denom_pos quotient_of_div by blast+
  with assms have a: "0 < a"
    by (simp add: zero_less_divide_iff)
  define d where "d = bitlen a - bitlen b"
  have bl: "pow2 (bitlen x - 1) \<le> of_int x \<and> of_int x < pow2 (bitlen x)" if "0 < x" for x
  proof -
    have p: "1 \<le> bitlen x"
      using that bitlen_eq_zero_iff [of x] bitlen_nonneg [of x] by linarith
    have "(2::int) ^ nat (bitlen x - 1) \<le> x" "x < 2 ^ nat (bitlen x)"
      using bitlen_bounds [OF that] by auto
    then have "(of_int (2 ^ nat (bitlen x - 1)) :: rat) \<le> of_int x"
      "(of_int x :: rat) < of_int (2 ^ nat (bitlen x))"
      by (simp_all only: of_int_le_iff of_int_less_iff)
    then show ?thesis
      using p by (simp add: pow2_def power_int_def)
  qed
  have ra: "pow2 (bitlen a - 1) \<le> of_int a" "of_int a < pow2 (bitlen a)"
    using bl [OF a] by auto
  have rb: "pow2 (bitlen b - 1) \<le> of_int b" "of_int b < pow2 (bitlen b)"
    using bl [OF b] by auto
  have bp: "(0::rat) < of_int b" using b by simp
  have lo: "pow2 (d - 1) < q"
  proof -
    have "pow2 (d - 1) * of_int b < pow2 (d - 1) * pow2 (bitlen b)"
      using rb(2) pow2_pos [of "d - 1"] by simp
    also have "\<dots> = pow2 (bitlen a - 1)"
      by (simp add: d_def flip: pow2_add)
    also have "\<dots> \<le> of_int a" by (rule ra(1))
    finally show ?thesis using bp by (simp add: q pos_less_divide_eq)
  qed
  have hi: "q < pow2 (d + 1)"
  proof -
    have "of_int a < pow2 (bitlen a)" by (rule ra(2))
    also have "\<dots> = pow2 (d + 1) * pow2 (bitlen b - 1)"
      by (simp add: d_def flip: pow2_add)
    also have "\<dots> \<le> pow2 (d + 1) * of_int b"
      using rb(1) pow2_pos [of "d + 1"] by simp
    finally show ?thesis using bp by (simp add: q pos_divide_less_eq)
  qed
  have il: "ilog2 q = (if pow2 d \<le> q then d else d - 1)"
    by (simp add: ilog2_def ab d_def Let_def)
  show ?thesis
    using lo hi by (auto simp: il not_le less_imp_le)
qed

lemma ilog2_unique:
  assumes "0 < q" "pow2 e \<le> q" "q < pow2 (e + 1)"
  shows "ilog2 q = e"
proof -
  have b: "pow2 (ilog2 q) \<le> q" "q < pow2 (ilog2 q + 1)"
    using ilog2_bounds [OF assms(1)] by auto
  have "pow2 e < pow2 (ilog2 q + 1)" using assms(2) b(2) by (rule le_less_trans)
  moreover have "pow2 (ilog2 q) < pow2 (e + 1)" using b(1) assms(3) by (rule le_less_trans)
  ultimately show ?thesis by (simp add: pow2_less_iff)
qed

lemma ilog2_le:
  assumes "0 < q" "q < pow2 (e + 1)"
  shows "ilog2 q \<le> e"
proof -
  have "pow2 (ilog2 q) < pow2 (e + 1)"
    using ilog2_bounds [OF assms(1)] assms(2) by auto
  then show ?thesis by (simp add: pow2_less_iff)
qed

lemma ilog2_ge:
  assumes "0 < q" "pow2 e \<le> q"
  shows "e \<le> ilog2 q"
proof -
  have "pow2 e < pow2 (ilog2 q + 1)"
    using ilog2_bounds [OF assms(1)] assms(2) by auto
  then show ?thesis by (simp add: pow2_less_iff)
qed

subsection \<open>Rounding to an integer\<close>

lemma rhe_of_int: "round_half_even (of_int n) = n"
  by (simp add: round_half_even_def)

lemma rhe_ge: "of_int a \<le> x \<Longrightarrow> a \<le> round_half_even x"
  unfolding round_half_even_def Let_def
  using le_floor_iff by force

lemma rhe_le:
  assumes "x \<le> of_int b"
  shows "round_half_even x \<le> b"
proof -
  have f: "\<lfloor>x\<rfloor> \<le> b"
    using assms by (simp add: floor_le_iff)
  have g: "\<lfloor>x\<rfloor> + 1 \<le> b" if "\<not> x - of_int \<lfloor>x\<rfloor> < 1 / 2"
  proof -
    from that have "of_int \<lfloor>x\<rfloor> < x" by simp
    from this assms have "(of_int \<lfloor>x\<rfloor> :: rat) < of_int b" by (rule less_le_trans)
    then show ?thesis by simp
  qed
  show ?thesis
    unfolding round_half_even_def Let_def using f g by auto
qed

subsection \<open>Rounding to a double\<close>

lemma round_pos_cases: "round_pos q = PosInf \<or> (\<exists>r. round_pos q = Finite r)"
  by (simp add: round_pos_def Let_def)

lemma round_pos_eq:
  assumes "max (ilog2 r) (- 1022) = e" "round_half_even (r / pow2 (e - 52)) = k"
    "of_int k * pow2 (e - 52) = r'" "r' < pow2 1024"
  shows "round_pos r = Finite r'"
  using assms by (simp add: round_pos_def Let_def)

text \<open>
  The significand of a rounded positive number has at most 53 bits, and exactly 53 when
  the number is normal.
\<close>

lemma round_pos_significand:
  assumes q: "0 < q"
    and e: "e = max (ilog2 q) (- 1022)"
    and n: "n = round_half_even (q / pow2 (e - 52))"
  shows "0 \<le> n" and "n \<le> 2 ^ 53" and "e \<noteq> - 1022 \<Longrightarrow> 2 ^ 52 \<le> n"
proof -
  define u where "u = pow2 (e - 52)"
  have u: "0 < u" by (simp add: u_def pow2_pos)
  have "q < pow2 (ilog2 q + 1)" using ilog2_bounds [OF q] by simp
  also have "\<dots> \<le> pow2 (e + 1)" by (rule pow2_mono) (simp add: e)
  finally have q_hi: "q < pow2 (e + 1)" .
  have e1: "pow2 (e + 1) = 2 ^ 53 * u"
    unfolding u_def by (rule pow2_shift) simp
  have e0: "pow2 e = 2 ^ 52 * u"
    unfolding u_def by (rule pow2_shift) simp
  have "of_int 0 \<le> q / u" using q u by simp
  then show "0 \<le> n" unfolding n u_def by (rule rhe_ge)
  have "q / u < 2 ^ 53"
    using q_hi u by (simp add: e1 pos_divide_less_eq)
  then have "q / u \<le> of_int (2 ^ 53)" by simp
  then show "n \<le> 2 ^ 53" unfolding n u_def by (rule rhe_le)
  show "2 ^ 52 \<le> n" if "e \<noteq> - 1022"
  proof -
    from that have "e = ilog2 q" by (auto simp: e max_def split: if_splits)
    then have "pow2 e \<le> q" using ilog2_bounds [OF q] by simp
    then have "of_int (2 ^ 52) \<le> q / u" using u by (simp add: e0 pos_le_divide_eq)
    then show ?thesis unfolding n u_def by (rule rhe_ge)
  qed
qed

text \<open>Rounding a value that is already a double returns it.\<close>

lemma round_pos_idem:
  assumes q: "0 < q" and rq: "round_pos q = Finite r"
  shows "0 \<le> r \<and> (r \<noteq> 0 \<longrightarrow> round_pos r = Finite r)"
proof -
  define e where "e = max (ilog2 q) (- 1022)"
  define u where "u = pow2 (e - 52)"
  define n where "n = round_half_even (q / pow2 (e - 52))"
  have u: "0 < u" by (simp add: u_def pow2_pos)
  have rp: "round_pos q = (if pow2 1024 \<le> of_int n * u then PosInf else Finite (of_int n * u))"
    by (simp add: round_pos_def Let_def e_def u_def n_def)
  with rq have r: "r = of_int n * u" and rlt: "r < pow2 1024"
    by (auto split: if_splits)
  have e_lo: "- 1022 \<le> e" by (simp add: e_def)
  have e1: "pow2 (e + 1) = 2 ^ 53 * u"
    unfolding u_def by (rule pow2_shift) simp
  have e0: "pow2 e = 2 ^ 52 * u"
    unfolding u_def by (rule pow2_shift) simp
  note sg = round_pos_significand [OF q e_def n_def]
  have r0: "0 \<le> r" using sg(1) u by (simp add: r)
  have "round_pos r = Finite r" if "r \<noteq> 0"
  proof -
    have n1: "0 < n" using that sg(1) by (cases "n = 0") (auto simp: r)
    have rpos: "0 < r" using n1 u by (simp add: r)
    show ?thesis
    proof (cases "n = 2 ^ 53")
      case True
      then have re: "r = pow2 (e + 1)" by (simp add: r e1)
      have "ilog2 r = e + 1"
        by (rule ilog2_unique [OF rpos]) (simp_all add: re pow2_less_iff)
      then have m: "max (ilog2 r) (- 1022) = e + 1" using e_lo by simp
      have sh: "pow2 (e + 1) = 2 ^ 52 * pow2 (e + 1 - 52)"
        by (rule pow2_shift) simp
      have "r / pow2 (e + 1 - 52) = of_int (2 ^ 52)"
        using pow2_pos [of "e + 1 - 52"] by (simp add: re sh)
      then have "round_half_even (r / pow2 (e + 1 - 52)) = 2 ^ 52"
        by (simp only: rhe_of_int)
      moreover have "of_int (2 ^ 52) * pow2 (e + 1 - 52) = r"
        by (simp add: re sh)
      ultimately show ?thesis
        using m rlt by (intro round_pos_eq)
    next
      case False
      with sg(2) have "n < 2 ^ 53" by simp
      then have "(of_int n :: rat) < of_int (2 ^ 53)" by (simp only: of_int_less_iff)
      then have r_hi: "r < pow2 (e + 1)" using u by (simp add: r e1)
      have le: "ilog2 r \<le> e" using rpos r_hi by (rule ilog2_le)
      have m: "max (ilog2 r) (- 1022) = e"
      proof (cases "e = - 1022")
        case True
        with le show ?thesis by simp
      next
        case False
        then have "2 ^ 52 \<le> n" by (rule sg(3))
        then have "(of_int (2 ^ 52) :: rat) \<le> of_int n" by (simp only: of_int_le_iff)
        then have "pow2 e \<le> r" using u by (simp add: r e0)
        with rpos have "e \<le> ilog2 r" by (rule ilog2_ge)
        with le e_lo show ?thesis by simp
      qed
      have "r / u = of_int n" using u by (simp add: r)
      then have "round_half_even (r / pow2 (e - 52)) = n"
        by (simp only: u_def rhe_of_int)
      moreover have "of_int n * pow2 (e - 52) = r"
        by (simp add: r u_def)
      ultimately show ?thesis
        using m rlt by (intro round_pos_eq)
    qed
  qed
  with r0 show ?thesis by simp
qed

lemma round_double_0 [simp]: "round_double 0 = Finite 0"
  by (simp add: round_double_def)

lemma round_double_idem:
  assumes "round_double q = Finite r"
  shows "round_double r = Finite r"
proof -
  consider "q = 0" | "0 < q" | "q < 0" by linarith
  then show ?thesis
  proof cases
    case 1
    with assms show ?thesis by (simp add: round_double_def)
  next
    case 2
    with assms have rp: "round_pos q = Finite r" by (simp add: round_double_def)
    from round_pos_idem [OF 2 rp] show ?thesis
      by (cases "r = 0") (auto simp: round_double_def)
  next
    case 3
    then have p: "0 < - q" by simp
    from 3 assms have d: "dneg (round_pos (- q)) = Finite r" by (simp add: round_double_def)
    then obtain s where rp: "round_pos (- q) = Finite s" and s: "s \<noteq> 0" "r = - s"
      using round_pos_cases [of "- q"] by (auto split: if_splits)
    from round_pos_idem [OF p rp] s have "0 < s" "round_pos s = Finite s" by auto
    then show ?thesis by (simp add: round_double_def s)
  qed
qed

text \<open>A positive number below \<open>pow2 1023\<close> does not round to infinity.\<close>

lemma round_pos_finite:
  assumes q: "0 < q" and hi: "q < pow2 1023"
  shows "\<exists>r. round_pos q = Finite r"
proof -
  define e where "e = max (ilog2 q) (- 1022)"
  define u where "u = pow2 (e - 52)"
  define n where "n = round_half_even (q / pow2 (e - 52))"
  have u: "0 < u" by (simp add: u_def pow2_pos)
  have "ilog2 q \<le> 1022" using q by (rule ilog2_le) (simp add: hi)
  then have e_hi: "e + 1 \<le> 1023" by (simp add: e_def)
  have e1: "pow2 (e + 1) = 2 ^ 53 * u"
    unfolding u_def by (rule pow2_shift) simp
  have "n \<le> 2 ^ 53" by (rule round_pos_significand(2) [OF q e_def n_def])
  then have "(of_int n :: rat) \<le> of_int (2 ^ 53)" by (simp only: of_int_le_iff)
  then have "of_int n * u \<le> pow2 (e + 1)" using u by (simp add: e1)
  also have "\<dots> \<le> pow2 1023" using e_hi by (rule pow2_mono)
  also have "\<dots> < pow2 1024" by (rule pow2_strict_mono) simp
  finally show ?thesis
    by (simp add: round_pos_def Let_def e_def u_def n_def)
qed

text \<open>Every double is an integer multiple of the smallest subnormal, \<open>pow2 (-1074)\<close>.\<close>

lemma round_pos_multiple:
  assumes "round_pos q = Finite r"
  shows "\<exists>k::int. r = of_int k * pow2 (- 1074)"
proof -
  define e where "e = max (ilog2 q) (- 1022)"
  define n where "n = round_half_even (q / pow2 (e - 52))"
  have r: "r = of_int n * pow2 (e - 52)"
    using assms by (auto simp: round_pos_def Let_def e_def n_def split: if_splits)
  have "- 1022 \<le> e" by (simp add: e_def)
  then have "e - 52 = - 1074 + int (nat (e + 1022))" by simp
  then have "pow2 (e - 52) = 2 ^ nat (e + 1022) * pow2 (- 1074)" by (rule pow2_shift)
  then have "r = of_int (n * 2 ^ nat (e + 1022)) * pow2 (- 1074)"
    by (simp add: r)
  then show ?thesis ..
qed

lemma is_double_multiple:
  assumes "is_double (Finite q)"
  shows "\<exists>k::int. q = of_int k * pow2 (- 1074)"
proof -
  from assms have r: "round_double q = Finite q" by simp
  consider "q = 0" | "0 < q" | "q < 0" by linarith
  then show ?thesis
  proof cases
    case 1
    then have "q = of_int 0 * pow2 (- 1074)" by simp
    then show ?thesis ..
  next
    case 2
    with r have "round_pos q = Finite q" by (simp add: round_double_def)
    then show ?thesis by (rule round_pos_multiple)
  next
    case 3
    with r have "dneg (round_pos (- q)) = Finite q" by (simp add: round_double_def)
    then have "round_pos (- q) = Finite (- q)"
      using round_pos_cases [of "- q"] 3 by (auto split: if_splits)
    then obtain k :: int where "- q = of_int k * pow2 (- 1074)"
      using round_pos_multiple by blast
    then have "q = of_int (- k) * pow2 (- 1074)" by simp
    then show ?thesis ..
  qed
qed

text \<open>From the smallest subnormal on, nothing rounds to zero.\<close>

lemma round_pos_nonzero:
  assumes "pow2 (- 1074) \<le> q"
  shows "round_pos q \<noteq> Finite 0"
proof -
  have q: "0 < q" using pow2_pos [of "- 1074"] assms by simp
  define e where "e = max (ilog2 q) (- 1022)"
  define u where "u = pow2 (e - 52)"
  have u: "0 < u" by (simp add: u_def pow2_pos)
  have "u \<le> q"
  proof (cases "e = - 1022")
    case True
    with assms show ?thesis by (simp add: u_def)
  next
    case False
    then have "e = ilog2 q" by (auto simp: e_def max_def split: if_splits)
    then have "pow2 e \<le> q" using ilog2_bounds [OF q] by simp
    moreover have "u \<le> pow2 e" unfolding u_def by (rule pow2_mono) simp
    ultimately show ?thesis by simp
  qed
  then have "of_int 1 \<le> q / u" using u by (simp add: pos_le_divide_eq)
  then have "1 \<le> round_half_even (q / u)" by (rule rhe_ge)
  then have "(0::rat) < of_int (round_half_even (q / u))" by simp
  then have "0 < of_int (round_half_even (q / u)) * u" using u by simp
  then show ?thesis
    by (auto simp: round_pos_def Let_def e_def u_def)
qed

lemma dneg_dneg [simp]: "dneg (dneg x) = x"
  by (cases x) auto

lemma round_double_neg: "q \<noteq> 0 \<Longrightarrow> round_double (- q) = dneg (round_double q)"
  by (cases "0 < q") (simp_all add: round_double_def)

lemma not_nan_round [simp]: "\<not> is_nan (round_double q)"
  using round_pos_cases [of q] round_pos_cases [of "- q"]
  by (auto simp: round_double_def split: if_splits)

subsection \<open>Some values\<close>

text \<open>
  The double nearest to one tenth; a tie between two doubles, resolved to the even
  significand; the quotient \<open>-250000 / 1e6\<close>.
\<close>

lemma round_double_tenth:
  "round_double (1 / 10) = Finite (3602879701896397 / 36028797018963968)"
  by code_simp

lemma double_of_int_tie:
  "double_of_int (2 ^ 53 + 1) = Finite (2 ^ 53) \<and> double_of_int (2 ^ 53 + 3) = Finite (2 ^ 53 + 4)"
  by code_simp

lemma ddiv_quarter:
  "ddiv (double_of_int (- 250000)) (Finite 1000000) = Finite (- 1 / 4)"
  by code_simp

subsection \<open>The operations return doubles\<close>

lemma is_double_round [simp]: "is_double (round_double q)"
  by (cases "round_double q") (simp_all add: round_double_idem)

lemma is_double_dadd [simp]: "is_double (dadd x y)"
  by (cases x; cases y) (simp_all add: dadd_def)

lemma is_double_ddiv [simp]: "is_double (ddiv x y)"
  by (simp add: ddiv_def signed_inf_def signed_zero_def)

lemma is_double_of_int [simp]: "is_double (double_of_int k)"
  by (simp add: double_of_int_def)

lemma is_double_fabs: "is_double x \<Longrightarrow> is_double (fabs x)"
proof (cases x)
  case (Finite q)
  assume "is_double x"
  with Finite have r: "round_double q = Finite q" by simp
  show ?thesis
  proof (cases "q < 0")
    case True
    with r have "dneg (round_pos (- q)) = Finite q" by (simp add: round_double_def)
    then have "round_pos (- q) = Finite (- q)"
      using round_pos_cases [of "- q"] True by (auto split: if_splits)
    with True show ?thesis by (simp add: Finite round_double_def)
  next
    case False
    with r show ?thesis by (simp add: Finite abs_if)
  qed
qed simp_all

lemma double_valued_POSIX: "double_valued diff_POSIX"
  by (simp add: double_valued_def diff_POSIX_def is_double_fabs)

lemma double_valued_WIN32: "double_valued (diff_WIN32 freq)"
  by (simp add: double_valued_def diff_WIN32_def)

subsection \<open>Adding doubles never gives the negative zero, and adding \<open>+0\<close> changes nothing\<close>

lemma round_double_not_NegZero:
  assumes "is_double (Finite a)" "is_double (Finite b)"
  shows "round_double (a + b) \<noteq> NegZero"
proof -
  obtain k l :: int where k: "a = of_int k * pow2 (- 1074)" and l: "b = of_int l * pow2 (- 1074)"
    using assms is_double_multiple by blast
  have s: "a + b = of_int (k + l) * pow2 (- 1074)"
    by (simp add: k l distrib_right)
  consider "a + b = 0" | "0 < a + b" | "a + b < 0" by linarith
  then show ?thesis
  proof cases
    case 1
    then show ?thesis by simp
  next
    case 2
    then show ?thesis
      using round_pos_cases [of "a + b"] by (auto simp: round_double_def)
  next
    case 3
    then have "k + l < 0"
      using pow2_pos [of "- 1074"] by (simp add: s mult_less_0_iff)
    then have "1 \<le> - (k + l)" by simp
    then have "(of_int 1 :: rat) \<le> of_int (- (k + l))" by (simp only: of_int_le_iff)
    then have "1 * pow2 (- 1074) \<le> of_int (- (k + l)) * pow2 (- 1074)"
      using pow2_pos [of "- 1074"] by (intro mult_right_mono) simp_all
    moreover have "of_int (- (k + l)) * pow2 (- 1074) = - (a + b)"
      by (simp only: s of_int_minus mult_minus_left)
    ultimately have "pow2 (- 1074) \<le> - (a + b)" by simp
    then have "round_pos (- (a + b)) \<noteq> Finite 0" by (rule round_pos_nonzero)
    with 3 show ?thesis
      using round_pos_cases [of "- (a + b)"] by (auto simp: round_double_def)
  qed
qed

lemma dadd_not_NegZero:
  assumes "is_double x" "is_double y" "x \<noteq> NegZero"
  shows "dadd x y \<noteq> NegZero"
proof (cases "is_nan x \<or> is_nan y \<or> is_inf x \<or> is_inf y")
  case True
  then show ?thesis by (cases x; cases y) (simp_all add: dadd_def)
next
  case False
  with assms(3) obtain a where x: "x = Finite a" by (cases x) auto
  from False consider b where "y = Finite b" | "y = NegZero" by (cases y) auto
  then show ?thesis
  proof cases
    case 1
    with assms x show ?thesis
      using round_double_not_NegZero [of a b] by (simp add: dadd_def)
  next
    case 2
    with assms x show ?thesis
      using round_double_not_NegZero [of a 0] by (simp add: dadd_def)
  qed
qed

lemma dadd_zero_right:
  "is_double x \<Longrightarrow> x \<noteq> NegZero \<Longrightarrow> dadd x (Finite 0) = x"
  by (cases x) (simp_all add: dadd_def)

lemma foldl_dadd_ok:
  "is_double m \<Longrightarrow> m \<noteq> NegZero \<Longrightarrow> \<forall>d \<in> set ds. is_double d \<Longrightarrow>
   is_double (foldl dadd m ds) \<and> foldl dadd m ds \<noteq> NegZero"
  by (induction ds arbitrary: m) (simp_all add: dadd_not_NegZero)

subsection \<open>Negating the operands\<close>

lemma fabs_dneg [simp]: "fabs (dneg x) = fabs x"
  by (cases x) auto

lemma dadd_finite:
  "\<not> is_nan x \<Longrightarrow> \<not> is_inf x \<Longrightarrow> \<not> is_nan y \<Longrightarrow> \<not> is_inf y \<Longrightarrow>
   dadd x y = (if x = NegZero \<and> y = NegZero then NegZero else round_double (valof x + valof y))"
  by (simp add: dadd_def)

lemma fabs_dadd_dneg: "fabs (dadd (dneg x) (dneg y)) = fabs (dadd x y)"
proof (cases "is_nan x \<or> is_nan y \<or> is_inf x \<or> is_inf y")
  case True
  then show ?thesis by (cases x; cases y) (simp_all add: dadd_def)
next
  case False
  then have f: "\<not> is_nan x" "\<not> is_inf x" "\<not> is_nan y" "\<not> is_inf y" by auto
  then have g: "\<not> is_nan (dneg x)" "\<not> is_inf (dneg x)" "\<not> is_nan (dneg y)" "\<not> is_inf (dneg y)"
    by (cases x; cases y; simp)+
  have v: "valof (dneg x) + valof (dneg y) = - (valof x + valof y)"
    by (cases x; cases y; simp)
  show ?thesis
  proof (cases "valof x + valof y = 0")
    case True
    then show ?thesis
      by (simp add: dadd_finite [OF f] dadd_finite [OF g] v)
  next
    case nz: False
    then have n: "\<not> (x = NegZero \<and> y = NegZero)" "\<not> (dneg x = NegZero \<and> dneg y = NegZero)"
      by (cases x; cases y; simp split: if_splits)+
    have "dadd x y = round_double (valof x + valof y)"
      using n by (simp only: dadd_finite [OF f] if_False)
    moreover have "dadd (dneg x) (dneg y) = round_double (- (valof x + valof y))"
      using n by (simp only: dadd_finite [OF g] v if_False)
    ultimately show ?thesis
      by (simp only: round_double_neg [OF nz] fabs_dneg)
  qed
qed

text \<open>Under \<open>fabs\<close>, the sign of a zero operand of the sum does not matter.\<close>

lemma fabs_dadd_zero_left:
  "is_zero x \<Longrightarrow> is_zero x' \<Longrightarrow> fabs (dadd x y) = fabs (dadd x' y)"
  by (cases x; cases x'; cases y) (simp_all add: dadd_def)

lemma fabs_dadd_zero_right:
  "is_zero y \<Longrightarrow> is_zero y' \<Longrightarrow> fabs (dadd x y) = fabs (dadd x y')"
  by (cases x; cases y; cases y') (simp_all add: dadd_def)

lemma ddiv_dneg: "0 < c \<Longrightarrow> ddiv (dneg x) (Finite c) = dneg (ddiv x (Finite c))"
  by (cases x) (auto simp add: ddiv_def signed_inf_def signed_zero_def round_double_neg [symmetric])

lemma ddiv_zero [simp]: "0 < c \<Longrightarrow> ddiv (Finite 0) (Finite c) = Finite 0"
  by (simp add: ddiv_def signed_zero_def)

lemma double_of_int_0 [simp]: "double_of_int 0 = Finite 0"
  by (simp add: double_of_int_def)

lemma double_of_int_neg: "k \<noteq> 0 \<Longrightarrow> double_of_int (- k) = dneg (double_of_int k)"
  by (simp add: double_of_int_def round_double_neg)

text \<open>The expression under \<open>fabs\<close> in \<open>diff\<close>, with both integer differences negated.\<close>

lemma seconds_mirror:
  assumes c: "0 < c"
  shows "fabs (dadd (double_of_int (- S)) (ddiv (double_of_int (- U)) (Finite c)))
       = fabs (dadd (double_of_int S) (ddiv (double_of_int U) (Finite c)))"
proof -
  have n: "NegZero = dneg (Finite 0)" by simp
  show ?thesis
  proof (cases "S = 0")
    case S: True
    show ?thesis
    proof (cases "U = 0")
      case True
      with S show ?thesis by simp
    next
      case False
      have "fabs (dadd (Finite 0) (dneg (ddiv (double_of_int U) (Finite c))))
            = fabs (dadd NegZero (dneg (ddiv (double_of_int U) (Finite c))))"
        by (rule fabs_dadd_zero_left) simp_all
      also have "\<dots> = fabs (dadd (Finite 0) (ddiv (double_of_int U) (Finite c)))"
        by (subst n) (rule fabs_dadd_dneg)
      finally show ?thesis
        using S False c by (simp add: double_of_int_neg ddiv_dneg)
    qed
  next
    case S: False
    show ?thesis
    proof (cases "U = 0")
      case True
      have "fabs (dadd (dneg (double_of_int S)) (Finite 0))
            = fabs (dadd (dneg (double_of_int S)) NegZero)"
        by (rule fabs_dadd_zero_right) simp_all
      also have "\<dots> = fabs (dadd (double_of_int S) (Finite 0))"
        by (subst n) (rule fabs_dadd_dneg)
      finally show ?thesis
        using S True c by (simp add: double_of_int_neg)
    next
      case False
      with S c show ?thesis
        by (simp add: double_of_int_neg ddiv_dneg fabs_dadd_dneg)
    qed
  qed
qed

lemma diff_POSIX_sym: "diff_POSIX a b = diff_POSIX b a"
  using seconds_mirror [of 1000000 "tv_sec a - tv_sec b" "tv_usec a - tv_usec b"]
  by (simp add: diff_POSIX_def)

text \<open>Hence the segments' durations on the \<open>#else\<close> branch do not depend on the order of the readings.\<close>

lemma dsum_POSIX_order:
  "dsum (map (\<lambda>(s, e). diff_POSIX e s) segs) = dsum (map (\<lambda>(s, e). diff_POSIX s e) segs)"
proof -
  have "(\<lambda>(s, e). diff_POSIX e s) = (\<lambda>(s, e). diff_POSIX s e)"
    by (rule ext) (simp add: split_def diff_POSIX_sym)
  then show ?thesis by simp
qed

subsection \<open>Signs\<close>

lemma not_inf_double_of_int:
  assumes "\<bar>k\<bar> < 2 ^ 64"
  shows "\<not> is_inf (double_of_int k)"
proof -
  have b: "(of_int \<bar>k\<bar> :: rat) < pow2 1023"
  proof -
    have "(of_int \<bar>k\<bar> :: rat) < of_int (2 ^ 64)" using assms by (simp only: of_int_less_iff)
    also have "\<dots> = pow2 64" by (simp add: pow2_def)
    also have "\<dots> < pow2 1023" by (rule pow2_strict_mono) simp
    finally show ?thesis .
  qed
  consider "k = 0" | "0 < k" | "k < 0" by linarith
  then show ?thesis
  proof cases
    case 1
    then show ?thesis by simp
  next
    case 2
    then have "\<exists>r. round_pos (of_int k) = Finite r"
      using b by (intro round_pos_finite) simp_all
    with 2 show ?thesis by (auto simp: double_of_int_def round_double_def)
  next
    case 3
    then have "\<exists>r. round_pos (- of_int k) = Finite r"
      using b by (intro round_pos_finite) simp_all
    with 3 show ?thesis by (auto simp: double_of_int_def round_double_def split: if_splits)
  qed
qed

lemma not_nan_double_of_int [simp]: "\<not> is_nan (double_of_int k)"
  by (simp add: double_of_int_def)

lemma not_nan_ddiv: "\<not> is_nan x \<Longrightarrow> c \<noteq> 0 \<Longrightarrow> \<not> is_nan (ddiv x (Finite c))"
  by (simp add: ddiv_def signed_inf_def signed_zero_def)

lemma not_nan_dadd: "\<not> is_nan x \<Longrightarrow> \<not> is_nan y \<Longrightarrow> \<not> is_inf x \<Longrightarrow> \<not> is_nan (dadd x y)"
  by (simp add: dadd_def)

lemma nonneg_fabs: "\<not> is_nan x \<Longrightarrow> nonneg (fabs x)"
  by (cases x) simp_all

lemma nonneg_dadd: "nonneg x \<Longrightarrow> nonneg y \<Longrightarrow> nonneg (dadd x y)"
proof (cases x; cases y)
  fix a b assume "nonneg x" "nonneg y" "x = Finite a" "y = Finite b"
  then have ab: "0 \<le> a" "0 \<le> b" by simp_all
  then have "a + b = 0 \<or> 0 < a + b" by linarith
  then have "nonneg (round_double (a + b))"
  proof
    assume "a + b = 0" then show ?thesis by simp
  next
    assume p: "0 < a + b"
    then show ?thesis
      using round_pos_cases [of "a + b"] round_pos_idem [OF p] by (auto simp: round_double_def)
  qed
  then show "nonneg (dadd x y)"
    using \<open>x = Finite a\<close> \<open>y = Finite b\<close> by (simp add: dadd_def)
qed (simp_all add: dadd_def)

section \<open>Facts about \<open>Timer\<close>\<close>

lemma run_Nil [simp]: "run dif t [] = t"
  by (simp add: run_def)

lemma run_Cons [simp]: "run dif t (c # cs) = run dif (do_call dif t c) cs"
  by (simp add: run_def)

text \<open>
  Along a call sequence with well-formed segments, the timer is ticking exactly inside
  a segment, and what it has accumulated at the end is what it had plus the segments'
  deltas, added in order.
\<close>

lemma run_segments:
  "segments opn cs = Some segs \<Longrightarrow> m_ticking t = (opn \<noteq> None) \<Longrightarrow>
   (\<forall>s. opn = Some s \<longrightarrow> m_starttime t = s) \<Longrightarrow>
   m_elapsed (run dif t cs) = foldl dadd (m_elapsed t) (map (\<lambda>(s, e). dif e s) segs)
   \<and> \<not> m_ticking (run dif t cs)"
proof (induction opn cs arbitrary: t segs rule: segments.induct)
  case 1
  then show ?case by simp
next
  case (2 s)
  then show ?case by simp
next
  case (3 c cs)
  from 3(2,3) show ?case
    using "3.IH" [of segs "start c t"] by (simp add: start_def)
next
  case (4 s c cs)
  then show ?case by simp
next
  case (5 c cs)
  from 5(2,3) show ?case
    using "5.IH" [of segs "stop dif c t"] by (simp add: stop_def)
next
  case (6 s c cs)
  from 6(2) obtain r where r: "segments None cs = Some r" "segs = (s, c) # r"
    by auto
  from 6(3,4) show ?case
    using "6.IH" [of r "stop dif c t"] r by (simp add: stop_def)
qed

text \<open>The accumulated time of a reachable timer is a double other than \<open>-0\<close>.\<close>

lemma reachable_elapsed_ok:
  assumes "double_valued dif" "reachable dif t"
  shows "is_double (m_elapsed t) \<and> m_elapsed t \<noteq> NegZero"
  using assms(2)
proof induction
  case (r_ctor startnow clk u)
  then show ?case by (simp add: Timer_ctor_def Let_def start_def)
next
  case (r_start t clk)
  then show ?case by (simp add: start_def)
next
  case (r_stop t clk)
  then show ?case
    using assms(1) by (simp add: stop_def double_valued_def dadd_not_NegZero)
next
  case (r_reset t)
  then show ?case by (simp add: reset_def)
qed

text \<open>
  On the \<open>#else\<close> branch nothing negative is measured, added or reported, as long as the
  two \<open>tv_sec\<close> differ by less than \<open>2 ^ 64\<close> (any two values of a \<open>time_t\<close> of at most 64
  bits do).
\<close>

lemma diff_POSIX_nonneg:
  "\<bar>tv_sec b - tv_sec a\<bar> < 2 ^ 64 \<Longrightarrow> nonneg (diff_POSIX a b)"
  unfolding diff_POSIX_def
  by (intro nonneg_fabs not_nan_dadd not_nan_ddiv not_inf_double_of_int) simp_all

lemma stop_POSIX_nonneg:
  assumes "nonneg (m_elapsed t)" "\<bar>tv_sec (m_starttime t) - tv_sec clk\<bar> < 2 ^ 64"
  shows "nonneg (m_elapsed (stop diff_POSIX clk t))"
  using assms by (simp add: stop_def nonneg_dadd diff_POSIX_nonneg)

lemma time_since_start_POSIX_nonneg:
  assumes "\<bar>tv_sec clk - tv_sec (m_starttime t)\<bar> < 2 ^ 64"
  shows "nonneg (fst (time_since_start diff_POSIX clk t))"
  using assms by (simp add: time_since_start_def diff_POSIX_nonneg)

lemma operator_call_POSIX_nonneg:
  assumes "nonneg (m_elapsed t)" "\<bar>tv_sec clk - tv_sec (m_starttime t)\<bar> < 2 ^ 64"
  shows "nonneg (fst (operator_call diff_POSIX clk t))"
  using assms
  by (simp add: operator_call_def time_since_start_def nonneg_dadd diff_POSIX_nonneg)

text \<open>
  A timer constructed with \<open>startnow = false\<close> receives a finite sequence of \<open>start()\<close>
  and \<open>stop()\<close> calls in which no \<open>start()\<close> falls inside an open segment and the last
  segment is closed. Then \<open>operator()\<close> returns the deltas that \<open>stop()\<close> added,
  \<open>diff (n, m_starttime)\<close> for each segment, summed from \<open>0\<close> in the order of the
  segments, for every \<open>diff\<close> that returns doubles.
\<close>

lemma run_total:
  assumes "double_valued dif" "segments None cs = Some segs"
  shows "fst (operator_call dif clk (run dif (Timer_ctor False c0 u) cs))
         = dsum (map (\<lambda>(s, e). dif e s) segs)"
proof -
  let ?init = "Timer_ctor False c0 u"
  let ?fin = "run dif ?init cs"
  have t0: "m_ticking ?init = (None \<noteq> (None :: 'a option))" "m_elapsed ?init = Finite 0"
    by (simp_all add: Timer_ctor_def)
  have "m_elapsed ?fin = foldl dadd (m_elapsed ?init) (map (\<lambda>(s, e). dif e s) segs) \<and> \<not> m_ticking ?fin"
    using assms(2) t0(1) by (rule run_segments) simp
  then have rs: "m_elapsed ?fin = dsum (map (\<lambda>(s, e). dif e s) segs)" "\<not> m_ticking ?fin"
    by (simp_all add: t0(2) dsum_def)
  have "\<forall>d \<in> set (map (\<lambda>(s, e). dif e s) segs). is_double d"
    using assms(1) by (auto simp: double_valued_def)
  then have ok: "is_double (m_elapsed ?fin)" "m_elapsed ?fin \<noteq> NegZero"
    using foldl_dadd_ok [of "Finite 0" "map (\<lambda>(s, e). dif e s) segs"]
    by (simp_all add: rs dsum_def)
  have "fst (operator_call dif clk ?fin) = dadd (m_elapsed ?fin) (Finite 0)"
    using rs(2) by (simp add: operator_call_def time_since_start_def)
  also have "\<dots> = m_elapsed ?fin" using ok by (rule dadd_zero_right)
  finally show ?thesis by (simp only: rs)
qed

text \<open>
  On the \<open>#else\<close> branch that is the sum of the segments' durations, \<open>diff\<close> of the
  reading captured at \<open>start()\<close> and the reading taken at \<open>stop()\<close>.
\<close>

lemma run_total_POSIX:
  assumes "segments None cs = Some segs"
  shows "fst (operator_call diff_POSIX clk (run diff_POSIX (Timer_ctor False c0 u) cs))
         = dsum (map (\<lambda>(s, e). diff_POSIX s e) segs)"
  using run_total [OF double_valued_POSIX assms, of clk c0 u]
  by (simp only: dsum_POSIX_order)

text \<open>
  \<open>time_since_start()\<close> returns \<open>diff (m_starttime, now)\<close> when the timer is ticking and
  \<open>0\<close> when it is not, in particular right after a \<open>stop()\<close>, after a \<open>reset()\<close> and on a
  timer constructed with \<open>startnow = false\<close>; it leaves the timer as it was. On the
  \<open>#else\<close> branch the value is the absolute value, taken by \<open>fabs\<close>, of the difference
  of the two readings in seconds.
\<close>

lemma time_since_start_value:
  "(m_ticking t \<longrightarrow> fst (time_since_start dif clk t) = dif (m_starttime t) clk)
   \<and> (\<not> m_ticking t \<longrightarrow> fst (time_since_start dif clk t) = Finite 0)
   \<and> snd (time_since_start dif clk t) = t
   \<and> fst (time_since_start dif clk (stop dif c t)) = Finite 0
   \<and> fst (time_since_start dif clk (reset t)) = Finite 0
   \<and> fst (time_since_start dif clk (Timer_ctor False c u)) = Finite 0
   \<and> (m_ticking p \<longrightarrow>
        fst (time_since_start diff_POSIX n p)
        = fabs (dadd (double_of_int (tv_sec n - tv_sec (m_starttime p)))
                     (ddiv (double_of_int (tv_usec n - tv_usec (m_starttime p)))
                           (Finite 1000000))))"
  by (simp add: time_since_start_def stop_def reset_def Timer_ctor_def diff_POSIX_def)

section \<open>Properties of \<open>Timer\<close> and \<open>ScopedTimer\<close>\<close>

text \<open>
  Claim C1. After a sequence of \<open>start()\<close> and \<open>stop()\<close> calls with no \<open>start()\<close> inside an
  open segment and the last segment closed, \<open>operator()\<close> is to return the sum of the
  segments' durations, the clock difference between the reading captured at a
  segment's \<open>start()\<close> and the one taken at its \<open>stop()\<close>. The \<open>#else\<close> branch does
  (\<open>run_total_POSIX\<close>). The \<open>_WIN32\<close> branch does not: \<open>stop()\<close> calls
  \<open>diff (n, m_starttime)\<close>, the later reading first, and \<open>diff (then, now)\<close> is the signed
  \<open>now - then\<close> over the frequency there, so each segment is added with the opposite
  sign (\<open>run_total\<close>). With a counter of 10 MHz and two segments, one second from
  50000000 to 60000000 and two seconds from 70000000 to 90000000, the durations are
  \<open>1\<close> and \<open>2\<close>, their sum is \<open>3\<close>, and \<open>operator()\<close> returns \<open>-3\<close>.
\<close>

theorem total_WIN32_negative:
  "segments None
     [(Start, \<lparr>QuadPart = 50000000\<rparr>), (Stop, \<lparr>QuadPart = 60000000\<rparr>),
      (Start, \<lparr>QuadPart = 70000000\<rparr>), (Stop, \<lparr>QuadPart = 90000000\<rparr>)]
   = Some [(\<lparr>QuadPart = 50000000\<rparr>, \<lparr>QuadPart = 60000000\<rparr>),
           (\<lparr>QuadPart = 70000000\<rparr>, \<lparr>QuadPart = 90000000\<rparr>)]
   \<and> dsum [diff_WIN32 \<lparr>QuadPart = 10000000\<rparr> \<lparr>QuadPart = 50000000\<rparr> \<lparr>QuadPart = 60000000\<rparr>,
           diff_WIN32 \<lparr>QuadPart = 10000000\<rparr> \<lparr>QuadPart = 70000000\<rparr> \<lparr>QuadPart = 90000000\<rparr>]
     = Finite 3
   \<and> fst (operator_call (diff_WIN32 \<lparr>QuadPart = 10000000\<rparr>) \<lparr>QuadPart = 100000000\<rparr>
       (run (diff_WIN32 \<lparr>QuadPart = 10000000\<rparr>)
         (Timer_ctor False \<lparr>QuadPart = 0\<rparr> \<lparr>QuadPart = 0\<rparr>)
         [(Start, \<lparr>QuadPart = 50000000\<rparr>), (Stop, \<lparr>QuadPart = 60000000\<rparr>),
          (Start, \<lparr>QuadPart = 70000000\<rparr>), (Stop, \<lparr>QuadPart = 90000000\<rparr>)]))
     = Finite (- 3)"
  by code_simp

text \<open>
  Claim C2. No negative elapsed time is reported, and no negative delta is added by
  \<open>stop()\<close>. The \<open>#else\<close> branch keeps this (\<open>diff_POSIX_nonneg\<close>, \<open>stop_POSIX_nonneg\<close>,
  \<open>time_since_start_POSIX_nonneg\<close>, \<open>operator_call_POSIX_nonneg\<close>). The \<open>_WIN32\<close> branch
  does not: its \<open>diff (then, now)\<close> is the signed \<open>now - then\<close> over the frequency, and
  \<open>stop()\<close> calls \<open>diff (n, m_starttime)\<close>, the later reading first. With a counter of
  10 MHz read as 50000000 at \<open>start()\<close> and 60000000 at \<open>stop()\<close>, one second apart,
  \<open>stop()\<close> adds \<open>-1\<close> and \<open>operator()\<close> returns \<open>-1\<close>, while \<open>time_since_start()\<close>, which
  calls \<open>diff (m_starttime, n)\<close>, returns \<open>1\<close> for the same two readings.
\<close>

theorem stop_WIN32_negative:
  "m_elapsed (stop (diff_WIN32 \<lparr>QuadPart = 10000000\<rparr>) \<lparr>QuadPart = 60000000\<rparr>
      (start \<lparr>QuadPart = 50000000\<rparr> (Timer_ctor False \<lparr>QuadPart = 0\<rparr> \<lparr>QuadPart = 0\<rparr>)))
   = Finite (- 1)
   \<and> fst (operator_call (diff_WIN32 \<lparr>QuadPart = 10000000\<rparr>) \<lparr>QuadPart = 70000000\<rparr>
       (stop (diff_WIN32 \<lparr>QuadPart = 10000000\<rparr>) \<lparr>QuadPart = 60000000\<rparr>
         (start \<lparr>QuadPart = 50000000\<rparr> (Timer_ctor False \<lparr>QuadPart = 0\<rparr> \<lparr>QuadPart = 0\<rparr>))))
   = Finite (- 1)
   \<and> \<not> nonneg (Finite (- 1))
   \<and> fst (time_since_start (diff_WIN32 \<lparr>QuadPart = 10000000\<rparr>) \<lparr>QuadPart = 60000000\<rparr>
       (start \<lparr>QuadPart = 50000000\<rparr> (Timer_ctor False \<lparr>QuadPart = 0\<rparr> \<lparr>QuadPart = 0\<rparr>)))
   = Finite 1"
  by code_simp

text \<open>
  Claim C3. Whatever the timer was doing, \<open>reset()\<close> leaves the accumulated time at \<open>0\<close>
  and the timer stopped, so \<open>operator()\<close> returns exactly \<open>0\<close> right after it and changes
  nothing. The segment that was open is dropped: the accumulated time is \<open>0\<close>, not the
  segment's length, and a later \<open>stop()\<close> finds the timer stopped and adds nothing. In
  particular the total is \<open>0\<close> after construct(false), \<open>start()\<close>, \<open>stop()\<close>, \<open>reset()\<close>.
\<close>

theorem reset_zeroes:
  "m_elapsed (reset t) = Finite 0
   \<and> \<not> m_ticking (reset t)
   \<and> operator_call dif clk (reset t) = (Finite 0, reset t)
   \<and> stop dif clk (reset t) = reset t
   \<and> fst (operator_call dif clk
        (reset (stop dif c2 (start c1 (Timer_ctor False c0 u))))) = Finite 0"
  by (simp add: reset_def operator_call_def time_since_start_def stop_def dadd_def)


text \<open>
  Claim C4. \<open>start()\<close> on a timer that is ticking changes nothing: the flag, the start
  instant and the accumulated time are the ones before the call, whatever the clock
  reads at the second call. The open segment still begins at the first \<open>start()\<close>: a
  \<open>stop()\<close> after the second \<open>start()\<close> does what it would have done without it.
\<close>

theorem start_ticking_noop:
  "m_ticking t \<Longrightarrow>
   start clk t = t
   \<and> m_starttime (start clk t) = m_starttime t
   \<and> stop dif clk' (start clk t) = stop dif clk' t"
  by (simp add: start_def)

theorem start_ticking_noop_witness:
  "m_ticking (start \<lparr>tv_sec = 10, tv_usec = 0\<rparr>
      (Timer_ctor False \<lparr>tv_sec = 0, tv_usec = 0\<rparr> \<lparr>tv_sec = 0, tv_usec = 0\<rparr>))
   \<and> start \<lparr>tv_sec = 20, tv_usec = 0\<rparr>
        (start \<lparr>tv_sec = 10, tv_usec = 0\<rparr>
          (Timer_ctor False \<lparr>tv_sec = 0, tv_usec = 0\<rparr> \<lparr>tv_sec = 0, tv_usec = 0\<rparr>))
     = \<lparr>m_ticking = True, m_starttime = \<lparr>tv_sec = 10, tv_usec = 0\<rparr>, m_elapsed = Finite 0\<rparr>"
proof -
  have h: "m_ticking (start \<lparr>tv_sec = 10, tv_usec = 0\<rparr>
             (Timer_ctor False \<lparr>tv_sec = 0, tv_usec = 0\<rparr> \<lparr>tv_sec = 0, tv_usec = 0\<rparr>))"
    by (simp add: start_def Timer_ctor_def)
  show ?thesis
    using h start_ticking_noop [OF h, of "\<lparr>tv_sec = 20, tv_usec = 0\<rparr>" diff_POSIX
        "\<lparr>tv_sec = 30, tv_usec = 0\<rparr>"]
    by (simp add: start_def Timer_ctor_def)
qed

text \<open>
  Claim C5. \<open>stop()\<close> on a timer that is not ticking changes nothing; hence a second
  \<open>stop()\<close> right after a \<open>stop()\<close> leaves what the first one left, and the segment is
  added once.
\<close>

theorem stop_stopped_noop:
  "(\<not> m_ticking t \<longrightarrow> stop dif clk t = t)
   \<and> stop dif clk' (stop dif clk t) = stop dif clk t"
  by (simp add: stop_def)

theorem stop_stopped_noop_witness:
  "\<not> m_ticking (Timer_ctor False \<lparr>tv_sec = 0, tv_usec = 0\<rparr> \<lparr>tv_sec = 0, tv_usec = 0\<rparr>)
   \<and> stop diff_POSIX \<lparr>tv_sec = 7, tv_usec = 0\<rparr>
        (Timer_ctor False \<lparr>tv_sec = 0, tv_usec = 0\<rparr> \<lparr>tv_sec = 0, tv_usec = 0\<rparr>)
     = Timer_ctor False \<lparr>tv_sec = 0, tv_usec = 0\<rparr> \<lparr>tv_sec = 0, tv_usec = 0\<rparr>
   \<and> stop diff_POSIX \<lparr>tv_sec = 9, tv_usec = 0\<rparr>
        (stop diff_POSIX \<lparr>tv_sec = 7, tv_usec = 0\<rparr>
          (start \<lparr>tv_sec = 6, tv_usec = 0\<rparr>
            (Timer_ctor False \<lparr>tv_sec = 0, tv_usec = 0\<rparr> \<lparr>tv_sec = 0, tv_usec = 0\<rparr>)))
     = stop diff_POSIX \<lparr>tv_sec = 7, tv_usec = 0\<rparr>
          (start \<lparr>tv_sec = 6, tv_usec = 0\<rparr>
            (Timer_ctor False \<lparr>tv_sec = 0, tv_usec = 0\<rparr> \<lparr>tv_sec = 0, tv_usec = 0\<rparr>))"
  using stop_stopped_noop [of "Timer_ctor False \<lparr>tv_sec = 0, tv_usec = 0\<rparr> \<lparr>tv_sec = 0, tv_usec = 0\<rparr>"
      diff_POSIX "\<lparr>tv_sec = 7, tv_usec = 0\<rparr>" "\<lparr>tv_sec = 7, tv_usec = 0\<rparr>"]
    stop_stopped_noop [of "start \<lparr>tv_sec = 6, tv_usec = 0\<rparr>
        (Timer_ctor False \<lparr>tv_sec = 0, tv_usec = 0\<rparr> \<lparr>tv_sec = 0, tv_usec = 0\<rparr>)"
      diff_POSIX "\<lparr>tv_sec = 7, tv_usec = 0\<rparr>" "\<lparr>tv_sec = 9, tv_usec = 0\<rparr>"]
  by (simp add: Timer_ctor_def)

text \<open>
  Claim C6. In every state \<open>operator()\<close> returns \<open>m_elapsed + time_since_start()\<close> and
  leaves the timer as it was, ticking or not. When the timer is stopped the second
  summand is \<open>0\<close> and the result is \<open>m_elapsed\<close> itself: this is stated for the states
  a timer can reach, where \<open>m_elapsed\<close> is a double other than \<open>-0\<close> (\<open>-0 + 0\<close> is \<open>+0\<close>).
\<close>

theorem operator_call_total:
  "fst (operator_call dif clk t) = dadd (m_elapsed t) (fst (time_since_start dif clk t))
   \<and> snd (operator_call dif clk t) = t
   \<and> (double_valued dif \<longrightarrow> reachable dif t \<longrightarrow> \<not> m_ticking t \<longrightarrow>
        fst (operator_call dif clk t) = m_elapsed t)"
proof -
  have "fst (operator_call dif clk t) = m_elapsed t"
    if "double_valued dif" "reachable dif t" "\<not> m_ticking t"
  proof -
    have "is_double (m_elapsed t) \<and> m_elapsed t \<noteq> NegZero"
      using that(1,2) by (rule reachable_elapsed_ok)
    then have "dadd (m_elapsed t) (Finite 0) = m_elapsed t"
      by (simp add: dadd_zero_right)
    with that(3) show ?thesis
      by (simp add: operator_call_def time_since_start_def)
  qed
  then show ?thesis
    by (simp add: operator_call_def time_since_start_def)
qed

theorem operator_call_total_witness:
  "reachable diff_POSIX
     (stop diff_POSIX \<lparr>tv_sec = 101, tv_usec = 0\<rparr>
       (start \<lparr>tv_sec = 100, tv_usec = 250000\<rparr>
         (Timer_ctor False \<lparr>tv_sec = 0, tv_usec = 0\<rparr> \<lparr>tv_sec = 0, tv_usec = 0\<rparr>)))
   \<and> \<not> m_ticking
     (stop diff_POSIX \<lparr>tv_sec = 101, tv_usec = 0\<rparr>
       (start \<lparr>tv_sec = 100, tv_usec = 250000\<rparr>
         (Timer_ctor False \<lparr>tv_sec = 0, tv_usec = 0\<rparr> \<lparr>tv_sec = 0, tv_usec = 0\<rparr>)))
   \<and> fst (operator_call diff_POSIX \<lparr>tv_sec = 200, tv_usec = 0\<rparr>
     (stop diff_POSIX \<lparr>tv_sec = 101, tv_usec = 0\<rparr>
       (start \<lparr>tv_sec = 100, tv_usec = 250000\<rparr>
         (Timer_ctor False \<lparr>tv_sec = 0, tv_usec = 0\<rparr> \<lparr>tv_sec = 0, tv_usec = 0\<rparr>))))
     = m_elapsed
     (stop diff_POSIX \<lparr>tv_sec = 101, tv_usec = 0\<rparr>
       (start \<lparr>tv_sec = 100, tv_usec = 250000\<rparr>
         (Timer_ctor False \<lparr>tv_sec = 0, tv_usec = 0\<rparr> \<lparr>tv_sec = 0, tv_usec = 0\<rparr>)))
   \<and> m_elapsed
     (stop diff_POSIX \<lparr>tv_sec = 101, tv_usec = 0\<rparr>
       (start \<lparr>tv_sec = 100, tv_usec = 250000\<rparr>
         (Timer_ctor False \<lparr>tv_sec = 0, tv_usec = 0\<rparr> \<lparr>tv_sec = 0, tv_usec = 0\<rparr>)))
     = Finite (3 / 4)"
proof -
  let ?T = "stop diff_POSIX \<lparr>tv_sec = 101, tv_usec = 0\<rparr>
       (start \<lparr>tv_sec = 100, tv_usec = 250000\<rparr>
         (Timer_ctor False \<lparr>tv_sec = 0, tv_usec = 0\<rparr> \<lparr>tv_sec = 0, tv_usec = 0\<rparr>))"
  have r: "reachable diff_POSIX ?T"
    by (intro reachable.intros)
  have s: "\<not> m_ticking ?T"
    by (simp add: stop_def)
  have v: "m_elapsed ?T = Finite (3 / 4)"
    by code_simp
  from operator_call_total [of diff_POSIX "\<lparr>tv_sec = 200, tv_usec = 0\<rparr>" ?T]
  have "fst (operator_call diff_POSIX \<lparr>tv_sec = 200, tv_usec = 0\<rparr> ?T) = m_elapsed ?T"
    using double_valued_POSIX r s by blast
  with r s v show ?thesis by (intro conjI)
qed

text \<open>
  Claim C7. \<open>time_since_start()\<close> is to return \<open>|now - startInstant|\<close> when the timer is
  ticking and \<open>0\<close> when it is not, changing nothing. The second part and the frame hold
  on both branches, and the \<open>#else\<close> branch returns the absolute value
  (\<open>time_since_start_value\<close>). The \<open>_WIN32\<close> branch of \<open>diff\<close> takes no absolute value: with
  a counter of 10 MHz read as 60000000 at \<open>start()\<close> and as 50000000 at the query, a
  reading one second back, \<open>time_since_start()\<close> returns \<open>-1\<close> where \<open>|now - startInstant|\<close>
  is \<open>1\<close>; the \<open>#else\<close> branch returns \<open>1\<close> for a reading one second back.
\<close>

theorem time_since_start_WIN32_negative:
  "m_ticking (start \<lparr>QuadPart = 60000000\<rparr> (Timer_ctor False \<lparr>QuadPart = 0\<rparr> \<lparr>QuadPart = 0\<rparr>))
   \<and> fst (time_since_start (diff_WIN32 \<lparr>QuadPart = 10000000\<rparr>) \<lparr>QuadPart = 50000000\<rparr>
       (start \<lparr>QuadPart = 60000000\<rparr> (Timer_ctor False \<lparr>QuadPart = 0\<rparr> \<lparr>QuadPart = 0\<rparr>)))
     = Finite (- 1)
   \<and> \<not> nonneg (Finite (- 1))
   \<and> fst (time_since_start diff_POSIX \<lparr>tv_sec = 100, tv_usec = 0\<rparr>
       (start \<lparr>tv_sec = 101, tv_usec = 0\<rparr>
         (Timer_ctor False \<lparr>tv_sec = 0, tv_usec = 0\<rparr> \<lparr>tv_sec = 0, tv_usec = 0\<rparr>)))
     = Finite 1"
  by code_simp

text \<open>
  Claim C8. The constructor of \<open>ScopedTimer\<close> stores the reference and calls \<open>start()\<close>
  on the timer it refers to, the destructor calls \<open>stop()\<close> on it, and \<open>start()\<close>,
  \<open>stop()\<close> and \<open>reset()\<close> of the guard are the timer's own: the store changes at the
  referenced address only, by the timer's member function of the same name. After the
  constructor that timer is ticking, after the destructor it is not.
\<close>

theorem ScopedTimer_forwards:
  "ScopedTimer_ctor clk a s = (\<lparr>m_timer = a\<rparr>, s(a := start clk (s a)))
   \<and> m_ticking (snd (ScopedTimer_ctor clk a s) a)
   \<and> ScopedTimer_dtor dif clk g s = s(m_timer g := stop dif clk (s (m_timer g)))
   \<and> \<not> m_ticking (ScopedTimer_dtor dif clk g s (m_timer g))
   \<and> ScopedTimer_start clk g s = s(m_timer g := start clk (s (m_timer g)))
   \<and> ScopedTimer_stop dif clk g s = s(m_timer g := stop dif clk (s (m_timer g)))
   \<and> ScopedTimer_reset g s = s(m_timer g := reset (s (m_timer g)))"
  by (simp add: ScopedTimer_ctor_def ScopedTimer_dtor_def ScopedTimer_start_def
      ScopedTimer_stop_def ScopedTimer_reset_def start_def stop_def)


text \<open>
  Claim C10. On the \<open>#else\<close> branch \<open>diff (a, b) = diff (b, a)\<close> for all readings, and the
  common value is not NaN when the two \<open>tv_sec\<close> differ by less than \<open>2 ^ 64\<close>, so that
  \<open>==\<close> holds between the two results in C++ as well. So the delta that \<open>stop()\<close> adds,
  \<open>diff (n, m_starttime)\<close>, is the value that \<open>time_since_start()\<close> returns at the same
  reading, \<open>diff (m_starttime, n)\<close>.
\<close>

theorem diff_POSIX_symmetric:
  "diff_POSIX a b = diff_POSIX b a
   \<and> (\<bar>tv_sec b - tv_sec a\<bar> < 2 ^ 64 \<longrightarrow> \<not> is_nan (diff_POSIX a b))
   \<and> (m_ticking t \<longrightarrow>
        m_elapsed (stop diff_POSIX clk t)
        = dadd (m_elapsed t) (fst (time_since_start diff_POSIX clk t)))"
proof -
  have "\<not> is_nan (diff_POSIX a b)" if "\<bar>tv_sec b - tv_sec a\<bar> < 2 ^ 64"
    using diff_POSIX_nonneg [OF that] by (cases "diff_POSIX a b") simp_all
  then show ?thesis
    using diff_POSIX_sym [of clk "m_starttime t"] diff_POSIX_sym [of a b]
    by (simp add: stop_def time_since_start_def)
qed

theorem diff_POSIX_symmetric_witness:
  "diff_POSIX \<lparr>tv_sec = 100, tv_usec = 250000\<rparr> \<lparr>tv_sec = 101, tv_usec = 0\<rparr>
     = diff_POSIX \<lparr>tv_sec = 101, tv_usec = 0\<rparr> \<lparr>tv_sec = 100, tv_usec = 250000\<rparr>
   \<and> diff_POSIX \<lparr>tv_sec = 101, tv_usec = 0\<rparr> \<lparr>tv_sec = 100, tv_usec = 250000\<rparr> = Finite (3 / 4)
   \<and> \<bar>tv_sec \<lparr>tv_sec = 101, tv_usec = 0\<rparr> - tv_sec \<lparr>tv_sec = 100, tv_usec = 250000\<rparr>\<bar> < 2 ^ 64
   \<and> \<not> is_nan (diff_POSIX \<lparr>tv_sec = 100, tv_usec = 250000\<rparr> \<lparr>tv_sec = 101, tv_usec = 0\<rparr>)
   \<and> m_ticking (start \<lparr>tv_sec = 100, tv_usec = 250000\<rparr>
        (Timer_ctor False \<lparr>tv_sec = 0, tv_usec = 0\<rparr> \<lparr>tv_sec = 0, tv_usec = 0\<rparr>))
   \<and> m_elapsed (stop diff_POSIX \<lparr>tv_sec = 101, tv_usec = 0\<rparr>
        (start \<lparr>tv_sec = 100, tv_usec = 250000\<rparr>
          (Timer_ctor False \<lparr>tv_sec = 0, tv_usec = 0\<rparr> \<lparr>tv_sec = 0, tv_usec = 0\<rparr>)))
     = dadd (Finite 0)
        (fst (time_since_start diff_POSIX \<lparr>tv_sec = 101, tv_usec = 0\<rparr>
          (start \<lparr>tv_sec = 100, tv_usec = 250000\<rparr>
            (Timer_ctor False \<lparr>tv_sec = 0, tv_usec = 0\<rparr> \<lparr>tv_sec = 0, tv_usec = 0\<rparr>))))"
proof -
  let ?I = "Timer_ctor False \<lparr>tv_sec = 0, tv_usec = 0\<rparr> \<lparr>tv_sec = 0, tv_usec = 0\<rparr>"
  let ?T = "start \<lparr>tv_sec = 100, tv_usec = 250000\<rparr> ?I"
  have a: "m_ticking ?T" by (simp add: start_def Timer_ctor_def)
  have e: "m_elapsed ?T = Finite 0" by (simp add: start_def Timer_ctor_def)
  have r: "\<bar>tv_sec \<lparr>tv_sec = 101, tv_usec = 0\<rparr> - tv_sec \<lparr>tv_sec = 100, tv_usec = 250000\<rparr>\<bar> < 2 ^ 64"
    by simp
  have v: "diff_POSIX \<lparr>tv_sec = 101, tv_usec = 0\<rparr> \<lparr>tv_sec = 100, tv_usec = 250000\<rparr> = Finite (3 / 4)"
    by code_simp
  note th = diff_POSIX_symmetric [of "\<lparr>tv_sec = 100, tv_usec = 250000\<rparr>" "\<lparr>tv_sec = 101, tv_usec = 0\<rparr>"
      ?T "\<lparr>tv_sec = 101, tv_usec = 0\<rparr>"]
  from th have s: "diff_POSIX \<lparr>tv_sec = 100, tv_usec = 250000\<rparr> \<lparr>tv_sec = 101, tv_usec = 0\<rparr>
     = diff_POSIX \<lparr>tv_sec = 101, tv_usec = 0\<rparr> \<lparr>tv_sec = 100, tv_usec = 250000\<rparr>"
    by (rule conjunct1)
  from th r have n: "\<not> is_nan (diff_POSIX \<lparr>tv_sec = 100, tv_usec = 250000\<rparr> \<lparr>tv_sec = 101, tv_usec = 0\<rparr>)"
    by blast
  from th a e have d: "m_elapsed (stop diff_POSIX \<lparr>tv_sec = 101, tv_usec = 0\<rparr> ?T)
     = dadd (Finite 0) (fst (time_since_start diff_POSIX \<lparr>tv_sec = 101, tv_usec = 0\<rparr> ?T))"
    by simp
  from s v r n a d show ?thesis by (intro conjI)
qed

end
